theory Spec2Isabelle
  imports Main
begin

section \<open>Rendered trees\<close>

text \<open>
  A DOM node as the editor reads it: a text node with its data, or an element with its
  tag name, its class list and its child nodes in document order.
\<close>

datatype node = TextNode string | Element string "string list" "node list"

fun textContent :: "node \<Rightarrow> string" where
  "textContent (TextNode t) = t"
| "textContent (Element tag cls kids) = concat (map textContent kids)"

fun isElement :: "node \<Rightarrow> bool" where
  "isElement (TextNode t) = False"
| "isElement (Element tag cls kids) = True"

fun isFixedWidthBlock :: "node \<Rightarrow> bool" where
  "isFixedWidthBlock (TextNode t) = False"
| "isFixedWidthBlock (Element tag cls kids) = (''mj-block'' \<in> set cls)"

fun shouldSetCursor :: "node \<Rightarrow> bool" where
  "shouldSetCursor (TextNode t) = False"
| "shouldSetCursor (Element tag cls kids) = (''mj-cursor'' \<in> set cls)"

section \<open>Lines of text\<close>

text \<open>
  \<^verbatim>\<open>text.split('\n')\<close> and \<^verbatim>\<open>lines.join('\n')\<close>. A string is a list of code units, and
  only their number and the line separator matter here.
\<close>

fun split_lines :: "string \<Rightarrow> string list" where
  "split_lines [] = [[]]"
| "split_lines (c # cs) =
     (if c = CHR 0x0A then [] # split_lines cs
      else (case split_lines cs of [] \<Rightarrow> [[c]] | l # ls \<Rightarrow> (c # l) # ls))"

fun join_lines :: "string list \<Rightarrow> string" where
  "join_lines [] = []"
| "join_lines [l] = l"
| "join_lines (l # m # ls) = l @ CHR 0x0A # join_lines (m # ls)"

section \<open>Line construction\<close>

text \<open>
  \<open>highlight\<close> stands for the child nodes the browser builds when the markup returned by
  \<^verbatim>\<open>doHighlight(text)\<close> is assigned to \<^verbatim>\<open>innerHTML\<close>; the highlighter is an external
  library and stays a parameter.
\<close>

definition createLine :: "(string \<Rightarrow> node list) \<Rightarrow> string \<Rightarrow> node" where
  "createLine highlight text =
     Element ''DIV'' [''mj-line''] (if text \<noteq> [] then highlight text else [Element ''BR'' [] []])"

definition cursorMarker :: node where
  "cursorMarker = Element ''SPAN'' [''mj-cursor''] []"

definition updateLine :: "(string \<Rightarrow> node list) \<Rightarrow> string \<Rightarrow> node" where
  "updateLine highlight text =
     (case createLine highlight text of
        Element tag cls kids \<Rightarrow>
          if kids \<noteq> [] \<and> isFixedWidthBlock (last kids) then Element tag cls (kids @ [cursorMarker])
          else Element tag cls kids
      | TextNode t \<Rightarrow> TextNode t)"

text \<open>
  Two sample tokenizers. \<open>plainText\<close> has an empty rule table: every line is one text
  node. \<open>hashLine\<close> is what the highlighter yields for a line that the rule \<^verbatim>\<open>H1_HASH\<close>
  matches as a whole, such as \<^verbatim>\<open>"# "\<close>: one span with the class names of the rule around
  the matched text.
\<close>

definition plainText :: "string \<Rightarrow> node list" where
  "plainText t = [TextNode t]"

definition hashLine :: "string \<Rightarrow> node list" where
  "hashLine t = [Element ''SPAN'' [''hljs-section'', ''mj-hash'', ''mj-h1-hash'', ''mj-block''] [TextNode t]]"

section \<open>The editor\<close>

text \<open>
  The state of one \<^verbatim>\<open>Markjar\<close> instance together with the part of the host it reads and
  writes. Child nodes of the editor element carry an identity, since the dirty set and the
  line synchronizer track nodes, not contents. \<open>detached\<close> holds the subtrees of nodes that
  are known by identity but are not child nodes of the editor. \<open>idleQueue\<close> lists the
  handles of the idle callbacks the host still has to run, \<open>idleId\<close> is the variable
  \<^verbatim>\<open>id\<close> captured by \<^verbatim>\<open>makeIdle\<close>, \<open>warnings\<close> is what \<^verbatim>\<open>console.warn\<close> received,
  and \<open>selected\<close> is the range last handed to \<^verbatim>\<open>selection.addRange\<close>.
\<close>

text \<open>
  The end of a range: the document (where \<^verbatim>\<open>document.createRange()\<close> puts it), a node of
  the walked line, or the node following the walked line.
\<close>

datatype container = DocumentNode | LineNode "nat list" | LineNextSibling

record selectedRange =
  walkedLine :: nat
  endContainer :: container
  endOffset :: int

record markjar =
  editor :: nat
  childNodes :: "(nat \<times> node) list"
  detached :: "nat \<rightharpoonup> node"
  nextId :: nat
  changedLines :: "nat list"
  idleId :: "nat option"
  idleQueue :: "nat list"
  nextHandle :: nat
  warnings :: "nat list"
  selected :: "selectedRange option"

datatype error = IndexSizeError | TypeError

text \<open>
  A method either returns or throws; a thrown exception leaves the state as it was
  mutated up to that point.
\<close>

datatype outcome = Returned markjar | Thrown error markjar

fun stateOf :: "outcome \<Rightarrow> markjar" where
  "stateOf (Returned s) = s"
| "stateOf (Thrown e s) = s"

text \<open>
  The constructor, on the editor element with identity \<open>e\<close>: assigning \<^verbatim>\<open>innerHTML\<close> leaves
  one empty line as the only child. Nodes created later take their identities from
  \<open>nextId\<close>.
\<close>

definition Markjar :: "nat \<Rightarrow> markjar" where
  "Markjar e =
     \<lparr> editor = e,
       childNodes = [(Suc e, Element ''DIV'' [''mj-line''] [])],
       detached = Map.empty,
       nextId = e + 2,
       changedLines = [],
       idleId = None,
       idleQueue = [],
       nextHandle = 1,
       warnings = [],
       selected = None \<rparr>"

text \<open>\<^verbatim>\<open>editor.children\<close>: the element child nodes.\<close>

definition children :: "markjar \<Rightarrow> (nat \<times> node) list" where
  "children s = filter (\<lambda>c. isElement (snd c)) (childNodes s)"

definition getText :: "markjar \<Rightarrow> string" where
  "getText s = join_lines (map (\<lambda>c. textContent (snd c)) (children s))"

subsection \<open>Line synchronizer\<close>

text \<open>
  \<^verbatim>\<open>editor.replaceChild(newLine, editor.children[i])\<close> on the list of child nodes: the
  \<open>i\<close>-th element child gives way to the new node and is detached.
\<close>

fun replaceElementAt :: "nat \<Rightarrow> (nat \<times> node) \<Rightarrow> (nat \<times> node) list \<Rightarrow> (nat \<times> node) list" where
  "replaceElementAt i new [] = []"
| "replaceElementAt i new (c # cs) =
     (if isElement (snd c)
      then (case i of 0 \<Rightarrow> new # cs | Suc j \<Rightarrow> c # replaceElementAt j new cs)
      else c # replaceElementAt i new cs)"

definition replaceChild :: "(nat \<times> node) \<Rightarrow> nat \<Rightarrow> markjar \<Rightarrow> markjar" where
  "replaceChild new i s =
     s\<lparr> childNodes := replaceElementAt i new (childNodes s),
        detached := (detached s)(fst (children s ! i) \<mapsto> snd (children s ! i)) \<rparr>"

definition appendChild :: "(nat \<times> node) \<Rightarrow> markjar \<Rightarrow> markjar" where
  "appendChild new s = s\<lparr> childNodes := childNodes s @ [new] \<rparr>"

text \<open>
  \<^verbatim>\<open>editor.removeChild(editor.lastChild)\<close>. The loop calls it only while the editor has more
  element children than lines, so there is a last child.
\<close>

definition removeLastChild :: "markjar \<Rightarrow> markjar" where
  "removeLastChild s =
     s\<lparr> childNodes := butlast (childNodes s),
        detached := (detached s)(fst (last (childNodes s)) \<mapsto> snd (last (childNodes s))) \<rparr>"

text \<open>The body of the \<^verbatim>\<open>for\<close> loop of \<^verbatim>\<open>#updateText\<close> at index \<open>i\<close>, for the line text \<open>t\<close>.\<close>

definition updateLineAt :: "(string \<Rightarrow> node list) \<Rightarrow> nat \<Rightarrow> string \<Rightarrow> markjar \<Rightarrow> markjar" where
  "updateLineAt highlight i t s =
     (if \<not> (i < length (children s) \<and> t = textContent (snd (children s ! i)))
      then (let newLine = (nextId s, createLine highlight t);
                s1 = s\<lparr> nextId := Suc (nextId s) \<rparr>
            in if i < length (children s1) then replaceChild newLine i s1
               else appendChild newLine s1)
      else s)"

text \<open>The \<^verbatim>\<open>for\<close> loop itself, from index \<open>i\<close> over the remaining lines.\<close>

fun updateLines :: "(string \<Rightarrow> node list) \<Rightarrow> nat \<Rightarrow> string list \<Rightarrow> markjar \<Rightarrow> markjar" where
  "updateLines highlight i [] s = s"
| "updateLines highlight i (t # ts) s = updateLines highlight (Suc i) ts (updateLineAt highlight i t s)"

text \<open>The \<^verbatim>\<open>while\<close> loop of \<^verbatim>\<open>#updateText\<close>.\<close>

function removeTrailing :: "nat \<Rightarrow> markjar \<Rightarrow> markjar" where
  "removeTrailing n s =
     (if length (children s) > n then removeTrailing n (removeLastChild s) else s)"
  by pat_completeness auto
termination
proof (relation "measure (\<lambda>(n, s). length (childNodes s))")
  show "wf (measure (\<lambda>(n, s). length (childNodes s)))" by simp
next
  fix n :: nat and s :: markjar
  assume "n < length (children s)"
  then have "childNodes s \<noteq> []" by (auto simp: children_def)
  then show "((n, removeLastChild s), (n, s)) \<in> measure (\<lambda>(n, s). length (childNodes s))"
    by (simp add: removeLastChild_def)
qed

declare removeTrailing.simps [simp del]

definition updateText :: "(string \<Rightarrow> node list) \<Rightarrow> markjar \<Rightarrow> string \<Rightarrow> markjar" where
  "updateText highlight s text =
     (let textLines = split_lines text
      in removeTrailing (length textLines) (updateLines highlight 0 textLines s))"

subsection \<open>Position mapper\<close>

record CursorPos =
  line :: int
  column :: int

text \<open>
  The mutable variables that \<^verbatim>\<open>walkNode\<close> and \<^verbatim>\<open>moveTo\<close> share inside
  \<^verbatim>\<open>moveCursorToColumn\<close>. The range is collapsed after every \<^verbatim>\<open>setEnd\<close>, so one boundary
  point describes it. Nodes are named relative to the walked line element: \<open>LineNode p\<close> is
  the node reached from it along the child indices \<open>p\<close>, and \<open>LineNextSibling\<close> is its next
  sibling among the child nodes of the editor.
\<close>

record walk =
  offset :: int
  found :: bool
  rangeEnd :: "container \<times> int"

text \<open>
  \<open>psib\<close> is \<^verbatim>\<open>node.parentElement.nextSibling\<close> of the text node \<^verbatim>\<open>moveTo\<close> is called on,
  \<^verbatim>\<open>None\<close> for \<^verbatim>\<open>null\<close>.
\<close>

definition moveTo :: "int \<Rightarrow> (container \<times> node) option \<Rightarrow> nat list \<Rightarrow> walk \<Rightarrow> walk" where
  "moveTo col psib path w =
     (case psib of
        Some (c, sibling) \<Rightarrow>
          if shouldSetCursor sibling then w\<lparr> rangeEnd := (c, 0) \<rparr>
          else w\<lparr> rangeEnd := (LineNode path, col - offset w) \<rparr>
      | None \<Rightarrow> w\<lparr> rangeEnd := (LineNode path, col - offset w) \<rparr>)"

text \<open>
  \<open>walkNode col psib nsib path node\<close>: \<open>node\<close> sits at \<open>path\<close>, \<open>nsib\<close> is its own next
  sibling and \<open>psib\<close> the next sibling of its parent element. \<open>walkChildren\<close> is the
  \<^verbatim>\<open>for\<close> loop over \<^verbatim>\<open>node.childNodes\<close>, from child index \<open>i\<close>.
\<close>

fun walkNode :: "int \<Rightarrow> (container \<times> node) option \<Rightarrow> (container \<times> node) option \<Rightarrow> nat list \<Rightarrow> node \<Rightarrow> walk \<Rightarrow> walk"
  and walkChildren :: "int \<Rightarrow> (container \<times> node) option \<Rightarrow> nat list \<Rightarrow> nat \<Rightarrow> node list \<Rightarrow> walk \<Rightarrow> walk" where
  "walkNode col psib nsib path (TextNode text) w =
     (if offset w + int (length text) \<ge> col then (moveTo col psib path w)\<lparr> found := True \<rparr>
      else w\<lparr> offset := offset w + int (length text) \<rparr>)"
| "walkNode col psib nsib path (Element tag cls kids) w = walkChildren col nsib path 0 kids w"
| "walkChildren col psib path i [] w = w"
| "walkChildren col psib path i (child # rest) w =
     (if found w then w
      else walkChildren col psib path (Suc i) rest
             (walkNode col psib
                (case rest of [] \<Rightarrow> None | next # _ \<Rightarrow> Some (LineNode (path @ [Suc i]), next))
                (path @ [i]) child w))"

abbreviation textLength :: "node list \<Rightarrow> int" where
  "textLength ns \<equiv> int (length (concat (map textContent ns)))"

text \<open>
  \<open>sibling\<close> is \<^verbatim>\<open>element.nextSibling\<close>. \<open>element\<close> is an element, so the next sibling of its
  own parent is never read.
\<close>

definition moveCursorToColumn :: "node \<Rightarrow> node option \<Rightarrow> int \<Rightarrow> container \<times> int \<Rightarrow> container \<times> int" where
  "moveCursorToColumn element sibling col range0 =
     (if length (textContent element) = 0 then (LineNode [], 0)
      else rangeEnd (walkNode col None (map_option (\<lambda>n. (LineNextSibling, n)) sibling) [] element
                       \<lparr> offset = 0, found = False, rangeEnd = range0 \<rparr>))"

text \<open>
  What the editor observes of a node handed over by the host: its identity and its node
  name. A node reference is the node followed by its chain of \<^verbatim>\<open>parentElement\<close>s,
  innermost first.
\<close>

record anode =
  ident :: nat
  nodeName :: string

type_synonym nodeRef = "anode \<times> anode list"

text \<open>
  A range of the host selection: its start container, and \<open>lengthTo e\<close>, the length of
  the text between the start of the node with identity \<open>e\<close> and the end of the range
  (what \<^verbatim>\<open>preRange.toString().length\<close> evaluates to).
\<close>

record hostRange =
  startContainer :: nodeRef
  lengthTo :: "nat \<Rightarrow> nat"

definition getLineElement :: "nat \<Rightarrow> nodeRef \<Rightarrow> anode option" where
  "getLineElement ed ref =
     (case ref of (node, parents) \<Rightarrow>
        if ident node = ed then None
        else (case parents of
                [] \<Rightarrow> None
              | parent # _ \<Rightarrow>
                  if ident parent = ed then Some node
                  else find (\<lambda>a. nodeName a = ''DIV'') parents))"

fun indexOf :: "nat list \<Rightarrow> nat \<Rightarrow> int" where
  "indexOf [] x = - 1"
| "indexOf (y # ys) x = (if y = x then 0 else (let r = indexOf ys x in if r < 0 then - 1 else r + 1))"

text \<open>
  \<open>sel\<close> is what \<^verbatim>\<open>window.getSelection()\<close> returns: \<open>None\<close> for \<^verbatim>\<open>null\<close>, otherwise the
  ranges of the selection. \<^verbatim>\<open>getRangeAt(0)\<close> throws on a selection without ranges.
\<close>

definition getCursorPos :: "markjar \<Rightarrow> hostRange list option \<Rightarrow> error + CursorPos option" where
  "getCursorPos s sel =
     (case sel of
        None \<Rightarrow> Inr None
      | Some ranges \<Rightarrow>
          (case ranges of
             [] \<Rightarrow> Inl IndexSizeError
           | range0 # _ \<Rightarrow>
               (case getLineElement (editor s) (startContainer range0) of
                  None \<Rightarrow> Inr None
                | Some element \<Rightarrow>
                    Inr (Some \<lparr> line = indexOf (map fst (children s)) (ident element),
                                column = int (lengthTo range0 (ident element)) \<rparr>))))"

text \<open>\<^verbatim>\<open>element.nextSibling\<close> for the \<open>k\<close>-th element child of the editor.\<close>

fun nextSiblingOfElement :: "nat \<Rightarrow> (nat \<times> node) list \<Rightarrow> node option" where
  "nextSiblingOfElement k [] = None"
| "nextSiblingOfElement k (c # cs) =
     (if isElement (snd c)
      then (case k of
              0 \<Rightarrow> (case cs of [] \<Rightarrow> None | d # _ \<Rightarrow> Some (snd d))
            | Suc j \<Rightarrow> nextSiblingOfElement j cs)
      else nextSiblingOfElement k cs)"

text \<open>
  \<open>hasSelection\<close> tells whether \<^verbatim>\<open>window.getSelection()\<close> is non-null. With no element
  child, \<^verbatim>\<open>editor.children[-1]\<close> is \<^verbatim>\<open>undefined\<close> and reading its \<^verbatim>\<open>textContent\<close> throws.
\<close>

definition setCursorPos :: "markjar \<Rightarrow> CursorPos option \<Rightarrow> bool \<Rightarrow> outcome" where
  "setCursorPos s pos hasSelection =
     (case pos of
        None \<Rightarrow> Returned s
      | Some p \<Rightarrow>
          if \<not> hasSelection then Returned s
          else (let validLine = min (max (line p) 0) (int (length (children s)) - 1)
                in if validLine < 0 then Thrown TypeError s
                   else (let element = snd (children s ! nat validLine);
                             r = moveCursorToColumn element
                                   (nextSiblingOfElement (nat validLine) (childNodes s))
                                   (column p) (DocumentNode, 0)
                         in Returned (s\<lparr> selected :=
                              Some \<lparr> walkedLine = nat validLine, endContainer = fst r, endOffset = snd r \<rparr> \<rparr>))))"

definition setText :: "(string \<Rightarrow> node list) \<Rightarrow> markjar \<Rightarrow> hostRange list option \<Rightarrow> string \<Rightarrow> outcome" where
  "setText highlight s sel text =
     (case getCursorPos s sel of
        Inl e \<Rightarrow> Thrown e s
      | Inr pos \<Rightarrow> setCursorPos (updateText highlight s text) pos (sel \<noteq> None))"

text \<open>A series of \<^verbatim>\<open>setText\<close> calls, each with the selection the host holds at that time.\<close>

fun setTexts :: "(string \<Rightarrow> node list) \<Rightarrow> markjar \<Rightarrow> (hostRange list option \<times> string) list \<Rightarrow> markjar" where
  "setTexts highlight s [] = s"
| "setTexts highlight s (call # calls) =
     setTexts highlight (stateOf (setText highlight s (fst call) (snd call))) calls"

subsection \<open>Dirty tracker and scheduler\<close>

text \<open>
  The host's idle callbacks. A handle that is not pending (\<^verbatim>\<open>undefined\<close>, or a callback that
  already ran) cancels nothing.
\<close>

definition cancelIdleCallback :: "nat option \<Rightarrow> markjar \<Rightarrow> markjar" where
  "cancelIdleCallback h s =
     (case h of None \<Rightarrow> s | Some k \<Rightarrow> s\<lparr> idleQueue := removeAll k (idleQueue s) \<rparr>)"

definition requestIdleCallback :: "markjar \<Rightarrow> nat \<times> markjar" where
  "requestIdleCallback s =
     (nextHandle s, s\<lparr> idleQueue := idleQueue s @ [nextHandle s], nextHandle := Suc (nextHandle s) \<rparr>)"

text \<open>The function \<^verbatim>\<open>makeIdle\<close> returns, stored as \<^verbatim>\<open>#requestForUpdate\<close>.\<close>

definition requestForUpdate :: "markjar \<Rightarrow> markjar" where
  "requestForUpdate s =
     (case requestIdleCallback (cancelIdleCallback (idleId s) s) of
        (h, s1) \<Rightarrow> s1\<lparr> idleId := Some h \<rparr>)"

text \<open>\<^verbatim>\<open>Set.prototype.add\<close> on the dirty set, kept in insertion order.\<close>

definition addChanged :: "nat \<Rightarrow> nat list \<Rightarrow> nat list" where
  "addChanged l ls = (if l \<in> set ls then ls else ls @ [l])"

text \<open>
  \<open>ranges\<close> lists the start containers of \<^verbatim>\<open>event.getTargetRanges()\<close>. The failed
  \<^verbatim>\<open>console.assert\<close> only prints; \<^verbatim>\<open>ranges[0].startContainer\<close> throws on an empty array.
\<close>

definition onBeforeInput :: "markjar \<Rightarrow> nodeRef list \<Rightarrow> outcome" where
  "onBeforeInput s ranges =
     (case ranges of
        [] \<Rightarrow> Thrown TypeError s
      | r # _ \<Rightarrow>
          (case getLineElement (editor s) r of
             None \<Rightarrow> Returned s
           | Some l \<Rightarrow>
               Returned (requestForUpdate (s\<lparr> changedLines := addChanged (ident l) (changedLines s) \<rparr>))))"

text \<open>
  The entry point of the external tree patcher, \<^verbatim>\<open>morphdom(fromNode, toNode)\<close>. An element
  of the node name of \<open>toNode\<close> is patched in place and stays the node it was; \<open>morph\<close>
  stands for that patching and yields the subtree the node has afterwards. An element of
  another node name gives way to a new element of the right name that takes over its
  children and is patched; a text node gives way to \<open>toNode\<close> itself. \<open>Replaced n gone\<close>
  carries the subtree of the node that takes the place and what is left of the node that
  lost it.
\<close>

datatype morphed = Kept node | Replaced node node

definition morphdomNode :: "(node \<Rightarrow> node \<Rightarrow> node) \<Rightarrow> node \<Rightarrow> node \<Rightarrow> morphed" where
  "morphdomNode morph fromNode toNode =
     (case fromNode of
        TextNode t \<Rightarrow>
          (case toNode of
             TextNode t' \<Rightarrow> Kept (TextNode t')
           | Element tag' cls' kids' \<Rightarrow> Replaced toNode fromNode)
      | Element tag cls kids \<Rightarrow>
          (case toNode of
             TextNode t' \<Rightarrow> Replaced toNode fromNode
           | Element tag' cls' kids' \<Rightarrow>
               if tag = tag' then Kept (morph fromNode toNode)
               else Replaced (morph (Element tag' [] kids) toNode) (Element tag cls [])))"

text \<open>The child node with identity \<open>l\<close> gives its place among the child nodes to \<open>new\<close>.\<close>

fun replaceNode :: "nat \<Rightarrow> (nat \<times> node) \<Rightarrow> (nat \<times> node) list \<Rightarrow> (nat \<times> node) list" where
  "replaceNode l new [] = []"
| "replaceNode l new (c # cs) = (if fst c = l then new # cs else c # replaceNode l new cs)"

text \<open>
  The body of the \<^verbatim>\<open>forEach\<close> over the dirty set, for the dirty node with identity \<open>l\<close>.
  \<^verbatim>\<open>line.parentElement !== this.editor\<close> holds exactly when the node is not among the child
  nodes of the editor. A node that \<^verbatim>\<open>morphdom\<close> replaces is detached, and the node in its
  place has a new identity.
\<close>

definition patchLine :: "(string \<Rightarrow> node list) \<Rightarrow> (node \<Rightarrow> node \<Rightarrow> node) \<Rightarrow> markjar \<Rightarrow> nat \<Rightarrow> markjar" where
  "patchLine highlight morphdom s l =
     (case find (\<lambda>c. fst c = l) (childNodes s) of
        None \<Rightarrow> s\<lparr> warnings := warnings s @ [l] \<rparr>
      | Some child \<Rightarrow>
          (case morphdomNode morphdom (snd child) (updateLine highlight (textContent (snd child))) of
             Kept n \<Rightarrow> s\<lparr> childNodes := replaceNode l (l, n) (childNodes s) \<rparr>
           | Replaced n gone \<Rightarrow>
               s\<lparr> childNodes := replaceNode l (nextId s, n) (childNodes s),
                  nextId := Suc (nextId s),
                  detached := (detached s)(l \<mapsto> gone) \<rparr>))"

fun isBr :: "node \<Rightarrow> bool" where
  "isBr (TextNode t) = False"
| "isBr (Element tag cls kids) = (tag = ''BR'')"

fun replaceBrNodes :: "(string \<Rightarrow> node list) \<Rightarrow> nat \<Rightarrow> (nat \<times> node) list \<Rightarrow> (nat \<times> node) list \<times> nat" where
  "replaceBrNodes highlight fresh [] = ([], fresh)"
| "replaceBrNodes highlight fresh (c # cs) =
     (if isBr (snd c)
      then (case replaceBrNodes highlight (Suc fresh) cs of
              (cs', fresh') \<Rightarrow> ((fresh, createLine highlight []) # cs', fresh'))
      else (case replaceBrNodes highlight fresh cs of (cs', fresh') \<Rightarrow> (c # cs', fresh')))"

definition replaceBrs :: "(string \<Rightarrow> node list) \<Rightarrow> markjar \<Rightarrow> markjar" where
  "replaceBrs highlight s =
     (case replaceBrNodes highlight (nextId s) (childNodes s) of
        (cs', fresh') \<Rightarrow>
          s\<lparr> childNodes := cs', nextId := fresh',
             detached := detached s ++ map_of (filter (\<lambda>c. isBr (snd c)) (childNodes s)) \<rparr>)"

text \<open>The callback handed to \<^verbatim>\<open>makeIdle\<close>: one reconciliation pass.\<close>

definition reconcile :: "(string \<Rightarrow> node list) \<Rightarrow> (node \<Rightarrow> node \<Rightarrow> node) \<Rightarrow> markjar \<Rightarrow> hostRange list option \<Rightarrow> outcome" where
  "reconcile highlight morphdom s sel =
     (case getCursorPos s sel of
        Inl e \<Rightarrow> Thrown e s
      | Inr pos \<Rightarrow>
          (let s1 = foldl (patchLine highlight morphdom) s (changedLines s);
               s2 = s1\<lparr> changedLines := [] \<rparr>;
               s3 = replaceBrs highlight s2
           in setCursorPos s3 pos (sel \<noteq> None)))"

text \<open>
  The host runs the idle callback with handle \<open>h\<close>: a pending callback leaves the queue
  and is invoked, any other handle runs nothing.
\<close>

definition runIdleCallback :: "(string \<Rightarrow> node list) \<Rightarrow> (node \<Rightarrow> node \<Rightarrow> node) \<Rightarrow> markjar \<Rightarrow> nat \<Rightarrow> hostRange list option \<Rightarrow> outcome" where
  "runIdleCallback highlight morphdom s h sel =
     (if h \<in> set (idleQueue s)
      then reconcile highlight morphdom (s\<lparr> idleQueue := removeAll h (idleQueue s) \<rparr>) sel
      else Returned s)"

text \<open>A burst of edit notifications, delivered one after the other.\<close>

fun deliver :: "markjar \<Rightarrow> nodeRef list list \<Rightarrow> markjar" where
  "deliver s [] = s"
| "deliver s (ranges # later) = deliver (stateOf (onBeforeInput s ranges)) later"

text \<open>
  The line each notification of a burst resolves to, in order of delivery; a notification
  without target range or without enclosing line contributes none.
\<close>

definition affectedLines :: "nat \<Rightarrow> nodeRef list list \<Rightarrow> nat list" where
  "affectedLines ed burst =
     concat (map (\<lambda>ranges.
        case ranges of
          [] \<Rightarrow> []
        | r # _ \<Rightarrow> (case getLineElement ed r of None \<Rightarrow> [] | Some l \<Rightarrow> [ident l])) burst)"

text \<open>
  Everything that happens to an editor: an edit notification, the host running an idle
  callback, a \<^verbatim>\<open>setText\<close> call. An exception thrown by one of them ends that event only.
\<close>

datatype event =
    BeforeInput "nodeRef list"
  | IdleCallback nat "hostRange list option"
  | SetText "hostRange list option" string

fun occur :: "(string \<Rightarrow> node list) \<Rightarrow> (node \<Rightarrow> node \<Rightarrow> node) \<Rightarrow> markjar \<Rightarrow> event \<Rightarrow> markjar" where
  "occur highlight morphdom s (BeforeInput ranges) = stateOf (onBeforeInput s ranges)"
| "occur highlight morphdom s (IdleCallback h sel) = stateOf (runIdleCallback highlight morphdom s h sel)"
| "occur highlight morphdom s (SetText sel t) = stateOf (setText highlight s sel t)"

definition run :: "(string \<Rightarrow> node list) \<Rightarrow> (node \<Rightarrow> node \<Rightarrow> node) \<Rightarrow> markjar \<Rightarrow> event list \<Rightarrow> markjar" where
  "run highlight morphdom s events = foldl (occur highlight morphdom) s events"

text \<open>
  The scheduler holds a single slot: whatever is pending is the callback whose handle
  \<^verbatim>\<open>makeIdle\<close> remembers.
\<close>

definition singleSlot :: "markjar \<Rightarrow> bool" where
  "singleSlot s \<longleftrightarrow> idleQueue s = [] \<or> map Some (idleQueue s) = [idleId s]"

subsection \<open>Sample documents\<close>



text \<open>
  In-place patching that meets its contract in the plainest way: the patched element takes
  the desired subtree.
\<close>

definition replaceWhole :: "node \<Rightarrow> node \<Rightarrow> node" where
  "replaceWhole old new = new"

text \<open>
  An edit in the line of a fresh editor, then \<^verbatim>\<open>setText("# ")\<close>, which replaces that line
  (identity 1) by a new one (identity 2), then an edit in the text of the new line: the
  dirty set holds both lines, and the first is no longer a child of the editor.
\<close>

definition staleDirtyLine :: markjar where
  "staleDirtyLine =
     run hashLine replaceWhole (Markjar 0)
       [BeforeInput [(\<lparr> ident = 1, nodeName = ''DIV'' \<rparr>, [\<lparr> ident = 0, nodeName = ''DIV'' \<rparr>])],
        SetText None ''# '',
        BeforeInput [(\<lparr> ident = 60, nodeName = ''#text'' \<rparr>,
                      [\<lparr> ident = 61, nodeName = ''SPAN'' \<rparr>, \<lparr> ident = 2, nodeName = ''DIV'' \<rparr>,
                       \<lparr> ident = 0, nodeName = ''DIV'' \<rparr>])]]"

text \<open>An edit notification whose target range starts at the editor element itself.\<close>

definition editAtEditor :: "nodeRef list" where
  "editAtEditor = [(\<lparr> ident = 0, nodeName = ''DIV'' \<rparr>, [\<lparr> ident = 9, nodeName = ''BODY'' \<rparr>])]"

text \<open>An edit notification whose target range starts at the first line of a fresh editor.\<close>

definition editAtFirstLine :: "nodeRef list" where
  "editAtFirstLine = [(\<lparr> ident = 1, nodeName = ''DIV'' \<rparr>, [\<lparr> ident = 0, nodeName = ''DIV'' \<rparr>])]"

section \<open>Splitting and joining\<close>

lemma join_split: "join_lines (split_lines t) = t"
proof (induction t)
  case Nil
  show ?case by simp
next
  case (Cons c cs)
  show ?case
  proof (cases "split_lines cs")
    case Nil
    with Cons show ?thesis by (cases cs) (auto split: if_splits list.splits)
  next
    case (Cons l ls)
    with Cons.IH show ?thesis by (cases ls) auto
  qed
qed

lemma split_lines_nonempty: "split_lines t \<noteq> []"
  by (induction t) (auto split: list.splits)

section \<open>The line synchronizer replaces exactly the changed lines\<close>

lemma filter_replaceElementAt:
  "isElement (snd new) \<Longrightarrow> i < length (filter (\<lambda>c. isElement (snd c)) cn) \<Longrightarrow>
   filter (\<lambda>c. isElement (snd c)) (replaceElementAt i new cn) = (filter (\<lambda>c. isElement (snd c)) cn)[i := new]"
  by (induction cn arbitrary: i) (auto split: nat.splits)

lemma isElement_createLine [simp]: "isElement (createLine hl t)"
  by (simp add: createLine_def)

lemma children_updateLineAt:
  "children (updateLineAt hl i t s) =
     (if i < length (children s) \<and> t = textContent (snd (children s ! i)) then children s
      else if i < length (children s) then (children s)[i := (nextId s, createLine hl t)]
      else children s @ [(nextId s, createLine hl t)])"
  by (auto simp: updateLineAt_def children_def replaceChild_def appendChild_def Let_def filter_replaceElementAt)

lemma nextId_updateLineAt:
  "nextId (updateLineAt hl i t s) =
     (if i < length (children s) \<and> t = textContent (snd (children s ! i)) then nextId s else Suc (nextId s))"
  by (auto simp: updateLineAt_def children_def replaceChild_def appendChild_def Let_def)

lemma nextId_updateLines: "nextId s \<le> nextId (updateLines hl i ts s)"
proof (induction ts arbitrary: i s)
  case Nil
  show ?case by simp
next
  case (Cons t ts)
  have "nextId s \<le> nextId (updateLineAt hl i t s)"
    by (simp add: nextId_updateLineAt)
  also have "\<dots> \<le> nextId (updateLines hl (Suc i) ts (updateLineAt hl i t s))"
    by (rule Cons.IH)
  finally show ?case by simp
qed

lemma length_updateLines:
  "i \<le> length (children s) \<Longrightarrow>
   length (children (updateLines hl i ts s)) = max (length (children s)) (i + length ts)"
  by (induction ts arbitrary: i s) (auto simp: children_updateLineAt)

lemma nth_updateLines:
  "i \<le> length (children s) \<Longrightarrow> j < length (children (updateLines hl i ts s)) \<Longrightarrow>
   (if i \<le> j \<and> j < i + length ts \<and>
       \<not> (j < length (children s) \<and> ts ! (j - i) = textContent (snd (children s ! j)))
    then nextId s \<le> fst (children (updateLines hl i ts s) ! j) \<and>
         snd (children (updateLines hl i ts s) ! j) = createLine hl (ts ! (j - i))
    else children (updateLines hl i ts s) ! j = children s ! j)"
proof (induction ts arbitrary: i s)
  case Nil
  then show ?case by auto
next
  case (Cons t ts)
  let ?s1 = "updateLineAt hl i t s"
  have le1: "Suc i \<le> length (children ?s1)"
    using Cons.prems(1) by (auto simp: children_updateLineAt)
  have j1: "j < length (children (updateLines hl (Suc i) ts ?s1))"
    using Cons.prems(2) by simp
  note IH = Cons.IH [OF le1 j1]
  have n1: "nextId s \<le> nextId ?s1" by (simp add: nextId_updateLineAt)
  consider "j < i" | "j = i" | "i < j" by linarith
  then show ?case
  proof cases
    case 1
    with IH Cons.prems(1) show ?thesis
      by (auto simp: children_updateLineAt nth_append split: if_splits)
  next
    case 2
    with IH Cons.prems(1) show ?thesis
      by (auto simp: children_updateLineAt nth_append nextId_updateLineAt split: if_splits)
  next
    case 3
    then have "j - i = Suc (j - Suc i)" by simp
    then have nth: "(t # ts) ! (j - i) = ts ! (j - Suc i)"
      by (metis nth_Cons_Suc)
    have same: "j < length (children s) \<Longrightarrow> children ?s1 ! j = children s ! j"
      using 3 by (auto simp: children_updateLineAt)
    have len: "j < length (children ?s1) \<longleftrightarrow> j < length (children s)"
      using 3 Cons.prems(1) by (auto simp: children_updateLineAt)
    have bound: "j < max (length (children s)) (i + length (t # ts))"
      using Cons.prems length_updateLines [of i s hl "t # ts"] by simp
    show ?thesis
      using IH 3 n1 nth same len bound by (auto split: if_splits)
  qed
qed

lemma children_removeLastChild:
  "childNodes s \<noteq> [] \<Longrightarrow>
   children (removeLastChild s) =
     (if isElement (snd (last (childNodes s))) then butlast (children s) else children s)"
proof -
  assume "childNodes s \<noteq> []"
  then obtain ys y where "childNodes s = ys @ [y]"
    by (metis rev_exhaust)
  then show ?thesis
    by (simp add: children_def removeLastChild_def)
qed

lemma children_removeTrailing: "children (removeTrailing n s) = take n (children s)"
proof (induction n s rule: removeTrailing.induct)
  case (1 n s)
  show ?case
  proof (cases "n < length (children s)")
    case True
    then have ne: "childNodes s \<noteq> []" by (auto simp: children_def)
    have "removeTrailing n s = removeTrailing n (removeLastChild s)"
      using True by (subst removeTrailing.simps) simp
    then have "children (removeTrailing n s) = take n (children (removeLastChild s))"
      using True "1.IH" by simp
    also have "\<dots> = take n (children s)"
      using True by (simp add: children_removeLastChild [OF ne] take_butlast)
    finally show ?thesis .
  next
    case False
    then have "removeTrailing n s = s"
      by (subst removeTrailing.simps) simp
    with False show ?thesis by simp
  qed
qed

lemma nextId_removeTrailing: "nextId (removeTrailing n s) = nextId s"
proof (induction n s rule: removeTrailing.induct)
  case (1 n s)
  show ?case
  proof (cases "n < length (children s)")
    case True
    then have "removeTrailing n s = removeTrailing n (removeLastChild s)"
      by (subst removeTrailing.simps) simp
    with True "1.IH" show ?thesis by (simp add: removeLastChild_def)
  next
    case False
    then have "removeTrailing n s = s"
      by (subst removeTrailing.simps) simp
    then show ?thesis by simp
  qed
qed

lemma length_children_updateText:
  "length (children (updateText hl s text)) = length (split_lines text)"
  by (simp add: updateText_def Let_def children_removeTrailing length_updateLines)

lemma nth_children_updateText:
  "i < length (split_lines text) \<Longrightarrow>
   children (updateText hl s text) ! i = children (updateLines hl 0 (split_lines text) s) ! i"
  by (simp add: updateText_def Let_def children_removeTrailing)

lemma updateText_line:
  assumes "i < length (split_lines text)"
  shows "if i < length (children s) \<and> split_lines text ! i = textContent (snd (children s ! i))
         then children (updateText hl s text) ! i = children s ! i
         else nextId s \<le> fst (children (updateText hl s text) ! i) \<and>
              snd (children (updateText hl s text) ! i) = createLine hl (split_lines text ! i)"
proof -
  let ?ls = "split_lines text"
  define same where "same \<longleftrightarrow> i < length (children s) \<and> ?ls ! i = textContent (snd (children s ! i))"
  have j: "i < length (children (updateLines hl 0 ?ls s))"
    using assms by (simp add: length_updateLines)
  have eq: "children (updateText hl s text) ! i = children (updateLines hl 0 ?ls s) ! i"
    using assms by (rule nth_children_updateText)
  have loop:
    "if \<not> same
     then nextId s \<le> fst (children (updateLines hl 0 ?ls s) ! i) \<and>
          snd (children (updateLines hl 0 ?ls s) ! i) = createLine hl (?ls ! i)
     else children (updateLines hl 0 ?ls s) ! i = children s ! i"
    unfolding same_def using nth_updateLines [of 0 s i hl ?ls, OF _ j] assms by simp
  have "if same
        then children (updateText hl s text) ! i = children s ! i
        else nextId s \<le> fst (children (updateText hl s text) ! i) \<and>
             snd (children (updateText hl s text) ! i) = createLine hl (?ls ! i)"
    using loop eq by (cases same) simp_all
  then show ?thesis
    unfolding same_def .
qed

lemma textContent_createLine:
  "\<forall>t. concat (map textContent (hl t)) = t \<Longrightarrow> textContent (createLine hl t) = t"
  by (simp add: createLine_def)

lemma text_updateText_line:
  assumes "\<forall>t. concat (map textContent (hl t)) = t" and i: "i < length (split_lines text)"
  shows "textContent (snd (children (updateText hl s text) ! i)) = split_lines text ! i"
proof -
  define same where "same \<longleftrightarrow> i < length (children s) \<and> split_lines text ! i = textContent (snd (children s ! i))"
  have line: "if same
        then children (updateText hl s text) ! i = children s ! i
        else nextId s \<le> fst (children (updateText hl s text) ! i) \<and>
             snd (children (updateText hl s text) ! i) = createLine hl (split_lines text ! i)"
    unfolding same_def using i by (rule updateText_line)
  show ?thesis
  proof (cases same)
    case True
    with line have "children (updateText hl s text) ! i = children s ! i" by simp
    moreover from True have "split_lines text ! i = textContent (snd (children s ! i))"
      by (simp add: same_def)
    ultimately show ?thesis by simp
  next
    case False
    with line have "snd (children (updateText hl s text) ! i) = createLine hl (split_lines text ! i)"
      by simp
    then show ?thesis
      by (simp add: textContent_createLine [OF assms(1)])
  qed
qed

lemma texts_updateText:
  assumes "\<forall>t. concat (map textContent (hl t)) = t"
  shows "map (\<lambda>c. textContent (snd c)) (children (updateText hl s text)) = split_lines text"
  by (rule nth_equalityI) (simp_all add: length_children_updateText text_updateText_line [OF assms])

lemma getText_updateText:
  "\<forall>t. concat (map textContent (hl t)) = t \<Longrightarrow> getText (updateText hl s text) = text"
  by (simp add: getText_def texts_updateText join_split)

lemma children_setCursorPos: "children (stateOf (setCursorPos s pos b)) = children s"
  by (auto simp: setCursorPos_def children_def Let_def split: option.splits)

lemma setCursorPos_returns:
  "children s \<noteq> [] \<Longrightarrow> \<exists>s'. setCursorPos s pos b = Returned s'"
  by (cases "children s") (auto simp: setCursorPos_def Let_def split: option.splits)

section \<open>Round trip and line count\<close>

lemma getCursorPos_no_throw: "sel \<noteq> Some [] \<Longrightarrow> \<exists>pos. getCursorPos s sel = Inr pos"
  by (auto simp: getCursorPos_def split: option.splits list.splits)

lemma getCursorPos_throws: "getCursorPos s sel = Inl e \<Longrightarrow> sel = Some [] \<and> e = IndexSizeError"
  by (auto simp: getCursorPos_def split: option.splits list.splits)

lemma children_updateText_nonempty: "children (updateText hl s text) \<noteq> []"
  using length_children_updateText [of hl s "text"] split_lines_nonempty [of "text"] by auto

lemma getText_setCursorPos: "getText (stateOf (setCursorPos s pos b)) = getText s"
  by (simp add: getText_def children_setCursorPos)

lemma setText_returns:
  assumes "sel \<noteq> Some []"
  shows "\<exists>s'. setText hl s sel text = Returned s' \<and> children s' = children (updateText hl s text)"
proof -
  from assms obtain pos where pos: "getCursorPos s sel = Inr pos"
    using getCursorPos_no_throw by blast
  obtain s' where s': "setCursorPos (updateText hl s text) pos (sel \<noteq> None) = Returned s'"
    using setCursorPos_returns [OF children_updateText_nonempty] by blast
  have "children s' = children (updateText hl s text)"
    using children_setCursorPos [of "updateText hl s text" pos "sel \<noteq> None"] s' by simp
  with pos s' show ?thesis by (simp add: setText_def)
qed

text \<open>
  With a tokenizer whose output has the text it was given, \<^verbatim>\<open>#updateText\<close> leaves an editor
  on which \<^verbatim>\<open>getText\<close> gives the text back, from every state of the editor; and
  \<^verbatim>\<open>setText\<close> returns with such an editor when the host selection is \<^verbatim>\<open>null\<close> or holds a
  range.
\<close>

lemma getText_after_setText:
  assumes "\<forall>t. concat (map textContent (highlight t)) = t" and "sel \<noteq> Some []"
  shows "\<exists>s'. setText highlight s sel t = Returned s' \<and> getText s' = t"
proof -
  obtain s' where s': "setText highlight s sel t = Returned s'"
    and ch: "children s' = children (updateText highlight s t)"
    using setText_returns [OF assms(2)] by blast
  have "getText s' = getText (updateText highlight s t)"
    using ch by (simp add: getText_def)
  also have "\<dots> = t"
    using assms(1) by (rule getText_updateText)
  finally show ?thesis using s' by blast
qed

lemma setText_without_range: "setText hl s (Some []) t = Thrown IndexSizeError s"
  by (simp add: setText_def getCursorPos_def)

text \<open>
  Claim C1 on a host selection without ranges, the state of a page on which nothing has
  been selected yet. \<^verbatim>\<open>#getCursorPos\<close> tests the selection for \<^verbatim>\<open>null\<close> only, and
  \<^verbatim>\<open>getRangeAt(0)\<close> throws before \<^verbatim>\<open>#updateText\<close> runs: \<^verbatim>\<open>setText\<close> of any text throws
  and leaves the editor as it was. On a fresh editor \<^verbatim>\<open>setText(join(["a"], "\n"))\<close> throws
  and \<^verbatim>\<open>getText()\<close> then returns the empty string, not \<^verbatim>\<open>"a"\<close>.
\<close>

theorem setText_throws_on_rangeless_selection:
  "setText highlight s (Some []) (join_lines L) = Thrown IndexSizeError s \<and>
   CHR 0x0A \<notin> set ''a'' \<and>
   (\<forall>t. concat (map textContent (plainText t)) = t) \<and>
   join_lines [''a''] = ''a'' \<and>
   setText plainText (Markjar 0) (Some []) (join_lines [''a'']) = Thrown IndexSizeError (Markjar 0) \<and>
   getText (stateOf (setText plainText (Markjar 0) (Some []) (join_lines [''a'']))) = [] \<and>
   getText (stateOf (setText plainText (Markjar 0) (Some []) (join_lines [''a'']))) \<noteq> join_lines [''a'']"
  by (simp add: setText_without_range plainText_def getText_def Markjar_def children_def)

text \<open>
  Claim C8. After \<^verbatim>\<open>#updateText\<close> the editor has one element child per desired line. At
  every index where the rendered line already had the desired text the child is the node
  that was there, identity and subtree; at every other index it is a node constructed by
  \<^verbatim>\<open>createLine\<close> during the call, with an identity allocated during the call. Rendered
  lines beyond the desired ones are gone.
\<close>

theorem updateText_replaces_changed_lines_only:
  "length (children (updateText highlight s text)) = length (split_lines text) \<and>
   (\<forall>i < length (split_lines text).
      if i < length (children s) \<and> split_lines text ! i = textContent (snd (children s ! i))
      then children (updateText highlight s text) ! i = children s ! i
      else nextId s \<le> fst (children (updateText highlight s text) ! i) \<and>
           snd (children (updateText highlight s text) ! i) = createLine highlight (split_lines text ! i))"
  using updateText_line [of _ "text" s highlight] by (simp add: length_children_updateText)

lemma children_setText_nonempty:
  "children s \<noteq> [] \<Longrightarrow> children (stateOf (setText hl s sel text)) \<noteq> []"
  by (cases "getCursorPos s sel")
     (simp_all add: setText_def children_setCursorPos children_updateText_nonempty)

lemma children_setTexts_nonempty:
  "children s \<noteq> [] \<Longrightarrow> children (setTexts hl s calls) \<noteq> []"
  by (induction calls arbitrary: s) (simp_all add: children_setText_nonempty)

lemma setText_outcome:
  "case setText hl s sel text of
     Returned s' \<Rightarrow> length (children s') = length (split_lines text)
   | Thrown err s' \<Rightarrow> s' = s"
proof (cases "getCursorPos s sel")
  case (Inl e)
  then show ?thesis by (simp add: setText_def)
next
  case (Inr pos)
  obtain s' where s': "setCursorPos (updateText hl s text) pos (sel \<noteq> None) = Returned s'"
    using setCursorPos_returns [OF children_updateText_nonempty] by blast
  have "children s' = children (updateText hl s text)"
    using children_setCursorPos [of "updateText hl s text" pos "sel \<noteq> None"] s' by simp
  with Inr s' show ?thesis
    by (simp add: setText_def length_children_updateText)
qed

lemma split_two_lines: "split_lines ''a\<newline>b'' = [''a'', ''b'']"
  by simp

lemma three_lines:
  "children (updateText plainText (Markjar 0) ''a\<newline>x\<newline>y'') =
     [(2, Element ''DIV'' [''mj-line''] [TextNode ''a'']),
      (3, Element ''DIV'' [''mj-line''] [TextNode ''x'']),
      (4, Element ''DIV'' [''mj-line''] [TextNode ''y''])]"
  by code_simp

lemma three_lines_nextId: "nextId (updateText plainText (Markjar 0) ''a\<newline>x\<newline>y'') = 5"
  by code_simp

theorem updateText_replaces_changed_lines_only_witness:
  "(0::nat) < length (split_lines ''a\<newline>b'') \<and>
   (1::nat) < length (split_lines ''a\<newline>b'') \<and>
   length (children (updateText plainText
             (updateText plainText (Markjar 0) ''a\<newline>x\<newline>y'') ''a\<newline>b'')) = 2 \<and>
   children (updateText plainText
               (updateText plainText (Markjar 0) ''a\<newline>x\<newline>y'') ''a\<newline>b'') ! 0 =
     (2, Element ''DIV'' [''mj-line''] [TextNode ''a'']) \<and>
   5 \<le> fst (children (updateText plainText
                      (updateText plainText (Markjar 0) ''a\<newline>x\<newline>y'') ''a\<newline>b'') ! 1) \<and>
   snd (children (updateText plainText
                    (updateText plainText (Markjar 0) ''a\<newline>x\<newline>y'') ''a\<newline>b'') ! 1) =
     Element ''DIV'' [''mj-line''] [TextNode ''b'']"
proof -
  let ?s0 = "updateText plainText (Markjar 0) ''a\<newline>x\<newline>y''"
  let ?t = "''a\<newline>b''"
  note inst = updateText_replaces_changed_lines_only [of plainText ?s0 ?t]
  from inst have len: "length (children (updateText plainText ?s0 ?t)) = 2"
    by (simp add: split_two_lines)
  from inst [THEN conjunct2, THEN spec, of 0]
  have 0: "children (updateText plainText ?s0 ?t) ! 0 = (2, Element ''DIV'' [''mj-line''] [TextNode ''a''])"
    by (simp add: split_two_lines three_lines)
  from inst [THEN conjunct2, THEN spec, of 1]
  have 1: "5 \<le> fst (children (updateText plainText ?s0 ?t) ! 1) \<and>
      snd (children (updateText plainText ?s0 ?t) ! 1) = Element ''DIV'' [''mj-line''] [TextNode ''b'']"
    by (simp add: split_two_lines three_lines three_lines_nextId createLine_def plainText_def)
  from len 0 1 show ?thesis by (simp add: split_two_lines)
qed

text \<open>
  Claim C10. A freshly constructed editor has one line child and \<^verbatim>\<open>getText\<close> returns the
  empty string on it; after any series of \<^verbatim>\<open>setText\<close> calls the editor still has a line
  child. Splitting never yields an empty array, a call that returns leaves one child per
  line of the text, and a call that throws has not touched the editor.
\<close>

theorem editor_always_has_a_line:
  "getText (Markjar e) = [] \<and>
   length (children (Markjar e)) = 1 \<and>
   children (setTexts highlight (Markjar e) calls) \<noteq> [] \<and>
   split_lines text \<noteq> [] \<and>
   (case setText highlight s sel text of
      Returned s' \<Rightarrow> length (children s') = length (split_lines text)
    | Thrown err s' \<Rightarrow> s' = s)"
proof -
  have one: "length (children (Markjar e)) = 1"
    by (simp add: Markjar_def children_def)
  then have "children (Markjar e) \<noteq> []" by auto
  then have "children (setTexts highlight (Markjar e) calls) \<noteq> []"
    by (rule children_setTexts_nonempty)
  moreover have "getText (Markjar e) = []"
    by (simp add: getText_def Markjar_def children_def)
  ultimately show ?thesis
    using one split_lines_nonempty setText_outcome by blast
qed

section \<open>The walk over a line\<close>


lemma walk_short:
  "\<not> found w \<Longrightarrow> offset w + int (length (textContent n)) < col \<Longrightarrow>
     walkNode col psib nsib path n w = w\<lparr> offset := offset w + int (length (textContent n)) \<rparr>"
  "\<not> found w \<Longrightarrow> offset w + textLength ns < col \<Longrightarrow>
     walkChildren col psib path i ns w = w\<lparr> offset := offset w + textLength ns \<rparr>"
proof (induction col psib nsib path n w and col psib path i ns w rule: walkNode_walkChildren.induct)
  case (1 col psib nsib path str w)
  then show ?case by simp
next
  case (2 col psib nsib path tag cls kids w)
  then show ?case by simp
next
  case (3 col psib path i w)
  then show ?case by simp
next
  case (4 col psib path i child rest w)
  let ?nsib = "case rest of [] \<Rightarrow> None | next # _ \<Rightarrow> Some (LineNode (path @ [Suc i]), next)"
  let ?w1 = "walkNode col psib ?nsib (path @ [i]) child w"
  have nf: "\<not> found w" by fact
  have short: "offset w + int (length (textContent child)) < col"
    using "4.prems"(2) by simp
  have w1: "?w1 = w\<lparr> offset := offset w + int (length (textContent child)) \<rparr>"
    using "4.IH"(1) [OF nf nf short] .
  have "walkChildren col psib path (Suc i) rest ?w1 = ?w1\<lparr> offset := offset ?w1 + textLength rest \<rparr>"
  proof (rule "4.IH"(2) [OF nf])
    show "\<not> found ?w1" using w1 nf by simp
    show "offset ?w1 + textLength rest < col" using w1 "4.prems"(2) by simp
  qed
  then show ?case
    using nf w1 by (simp add: add.assoc)
qed




lemma moveCursorToColumn_beyond:
  assumes "textContent element \<noteq> []" and "int (length (textContent element)) < col"
  shows "moveCursorToColumn element sibling col range0 = range0"
  using assms walk_short(1) [of "\<lparr> offset = 0, found = False, rangeEnd = range0 \<rparr>" element col]
  by (simp add: moveCursorToColumn_def)



lemma walkChildren_append_short:
  "\<not> found w \<Longrightarrow> xs = [] \<or> offset w + textLength xs < col \<Longrightarrow>
   walkChildren col psib path i (xs @ ys) w =
     walkChildren col psib path (i + length xs) ys (w\<lparr> offset := offset w + textLength xs \<rparr>)"
proof (induction xs arbitrary: i w)
  case Nil
  then show ?case by simp
next
  case (Cons x xs)
  let ?nsib = "case xs @ ys of [] \<Rightarrow> None | next # _ \<Rightarrow> Some (LineNode (path @ [Suc i]), next)"
  let ?w1 = "w\<lparr> offset := offset w + int (length (textContent x)) \<rparr>"
  have total: "offset w + textLength (x # xs) < col"
    using Cons.prems(2) by simp
  then have short: "offset w + int (length (textContent x)) < col" by simp
  have w1: "walkNode col psib ?nsib (path @ [i]) x w = ?w1"
    using Cons.prems(1) short by (rule walk_short(1))
  have "walkChildren col psib path (Suc i) (xs @ ys) ?w1 =
        walkChildren col psib path (Suc i + length xs) ys (?w1\<lparr> offset := offset ?w1 + textLength xs \<rparr>)"
  proof (rule Cons.IH)
    show "\<not> found ?w1" using Cons.prems(1) by simp
    show "xs = [] \<or> offset ?w1 + textLength xs < col" using total by simp
  qed
  then show ?case
    using Cons.prems(1) w1 by (simp add: add.assoc)
qed

lemma updateLine_block:
  assumes "text \<noteq> []" and "highlight text = pre @ [Element tag cls kids]" and "''mj-block'' \<in> set cls"
  shows "updateLine highlight text = Element ''DIV'' [''mj-line''] (pre @ [Element tag cls kids, cursorMarker])"
  using assms by (simp add: updateLine_def createLine_def)

text \<open>
  Claim C2, as the code has it. Take a line rendered by \<^verbatim>\<open>updateLine\<close> whose last token is a
  fixed-width block with one text leaf, so that the anchor marker follows it. For every
  column that no earlier leaf reaches and that does not exceed the end of the block leaf,
  \<^verbatim>\<open>moveCursorToColumn\<close> puts the caret at offset 0 of the anchor marker: at the end of the
  leaf and at every column before it alike. For the line \<^verbatim>\<open>"# "\<close> and column 2 this is the
  anchor marker at offset 0.
\<close>

theorem caret_lands_on_anchor_marker:
  assumes "text \<noteq> []"
    and "highlight text = pre @ [Element tag cls [TextNode block]]"
    and "''mj-block'' \<in> set cls"
    and "block \<noteq> []"
    and "pre = [] \<or> textLength pre < col"
    and "col \<le> textLength pre + int (length block)"
  shows "updateLine highlight text =
           Element ''DIV'' [''mj-line''] (pre @ [Element tag cls [TextNode block], cursorMarker]) \<and>
         moveCursorToColumn (updateLine highlight text) sibling col range0 = (LineNode [Suc (length pre)], 0)"
proof -
  let ?nsib = "map_option (\<lambda>n. (LineNextSibling, n)) sibling"
  let ?w0 = "\<lparr> offset = 0, found = False, rangeEnd = range0 \<rparr>"
  let ?w1 = "?w0\<lparr> offset := offset ?w0 + textLength pre \<rparr>"
  let ?blk = "Element tag cls [TextNode block]"
  have line: "updateLine highlight text = Element ''DIV'' [''mj-line''] (pre @ [?blk, cursorMarker])"
    using assms(1-3) by (rule updateLine_block)
  have "walkChildren col ?nsib [] 0 (pre @ [?blk, cursorMarker]) ?w0 =
        walkChildren col ?nsib [] (0 + length pre) [?blk, cursorMarker] ?w1"
    using assms(5) by (intro walkChildren_append_short) auto
  also have "rangeEnd \<dots> = (LineNode [Suc (length pre)], 0)"
    using assms(6) by (simp add: moveTo_def cursorMarker_def)
  finally have "rangeEnd (walkChildren col ?nsib [] 0 (pre @ [?blk, cursorMarker]) ?w0) =
                  (LineNode [Suc (length pre)], 0)" .
  then have "moveCursorToColumn (updateLine highlight text) sibling col range0 = (LineNode [Suc (length pre)], 0)"
    using assms(4) by (simp add: line moveCursorToColumn_def)
  with line show ?thesis by simp
qed

theorem caret_lands_on_anchor_marker_witness:
  "''# '' \<noteq> [] \<and>
   hashLine ''# '' = [] @ [Element ''SPAN'' [''hljs-section'', ''mj-hash'', ''mj-h1-hash'', ''mj-block''] [TextNode ''# '']] \<and>
   ''mj-block'' \<in> set [''hljs-section'', ''mj-hash'', ''mj-h1-hash'', ''mj-block''] \<and>
   (2::int) \<le> textLength [] + int (length ''# '') \<and>
   updateLine hashLine ''# '' =
     Element ''DIV'' [''mj-line'']
       [Element ''SPAN'' [''hljs-section'', ''mj-hash'', ''mj-h1-hash'', ''mj-block''] [TextNode ''# ''], cursorMarker] \<and>
   moveCursorToColumn (updateLine hashLine ''# '') None 2 (DocumentNode, 0) = (LineNode [1], 0)"
  using caret_lands_on_anchor_marker [of "''# ''" hashLine "[]" "''SPAN''"
      "[''hljs-section'', ''mj-hash'', ''mj-h1-hash'', ''mj-block'']" "''# ''" 2 None "(DocumentNode, 0)"]
  by (auto simp: hashLine_def)

text \<open>
  Claim C2 as stated restricts the anchor marker to a column exactly at the end of the block
  leaf. In the line \<^verbatim>\<open>"# "\<close> column 1 lies inside the leaf and the caret goes to the anchor
  marker all the same.
\<close>

theorem anchor_marker_before_leaf_end:
  "moveCursorToColumn (updateLine hashLine ''# '') None 1 (DocumentNode, 0) = (LineNode [1], 0) \<and>
   (1::int) \<noteq> int (length ''# '') \<and>
   updateLine hashLine ''# '' =
     Element ''DIV'' [''mj-line'']
       [Element ''SPAN'' [''hljs-section'', ''mj-hash'', ''mj-h1-hash'', ''mj-block''] [TextNode ''# ''], cursorMarker]"
  by (simp add: moveCursorToColumn_def updateLine_def createLine_def hashLine_def cursorMarker_def moveTo_def)

text \<open>
  Claim C3, as the code has it. On a line with text, a column strictly greater than the
  length of the text is reached by no leaf: the walk ends without calling \<^verbatim>\<open>moveTo\<close> and
  the range stays exactly as it was passed in.
\<close>

theorem moveCursorToColumn_beyond_text:
  assumes "textContent element \<noteq> []" and "int (length (textContent element)) < col"
  shows "moveCursorToColumn element sibling col range0 = range0"
  using assms by (rule moveCursorToColumn_beyond)

theorem moveCursorToColumn_beyond_text_witness:
  "textContent (createLine plainText ''ab'') \<noteq> [] \<and>
   int (length (textContent (createLine plainText ''ab''))) < 5 \<and>
   moveCursorToColumn (createLine plainText ''ab'') None 5 (DocumentNode, 0) = (DocumentNode, 0)"
  using moveCursorToColumn_beyond_text [of "createLine plainText ''ab''" 5 None "(DocumentNode, 0)"]
  by (simp add: createLine_def plainText_def)

text \<open>
  Claim C3 as stated puts the caret at the end of the last leaf. For the line \<^verbatim>\<open>"ab"\<close> and
  column 3 that would be offset 2 of its text node; the range is not there.
\<close>

theorem no_fallback_to_last_leaf:
  "createLine plainText ''ab'' = Element ''DIV'' [''mj-line''] [TextNode ''ab''] \<and>
   int (length (textContent (createLine plainText ''ab''))) < 3 \<and>
   moveCursorToColumn (createLine plainText ''ab'') None 3 (DocumentNode, 0) \<noteq> (LineNode [0], 2)"
  by (simp add: moveCursorToColumn_def createLine_def plainText_def)

text \<open>
  Claim C9. For a line whose text content is empty, \<^verbatim>\<open>moveCursorToColumn\<close> targets the line
  node itself at offset 0 for every column, whatever the line contains, and a caret
  restore on that line selects exactly this point.
\<close>

theorem empty_line_fast_path:
  assumes "i < length (children s)" and "textContent (snd (children s ! i)) = []"
  shows "moveCursorToColumn (snd (children s ! i)) sibling col range0 = (LineNode [], 0) \<and>
         setCursorPos s (Some \<lparr> line = int i, column = col \<rparr>) True =
           Returned (s\<lparr> selected := Some \<lparr> walkedLine = i, endContainer = LineNode [], endOffset = 0 \<rparr> \<rparr>)"
proof -
  have "min (max (int i) 0) (int (length (children s)) - 1) = int i"
    using assms(1) by simp
  then show ?thesis
    using assms by (simp add: moveCursorToColumn_def setCursorPos_def Let_def)
qed

theorem empty_line_fast_path_witness:
  "(0::nat) < length (children (Markjar 0)) \<and>
   textContent (snd (children (Markjar 0) ! 0)) = [] \<and>
   moveCursorToColumn (snd (children (Markjar 0) ! 0)) None 7 (DocumentNode, 0) = (LineNode [], 0) \<and>
   setCursorPos (Markjar 0) (Some \<lparr> line = int 0, column = 7 \<rparr>) True =
     Returned ((Markjar 0)\<lparr> selected := Some \<lparr> walkedLine = 0, endContainer = LineNode [], endOffset = 0 \<rparr> \<rparr>)"
  using empty_line_fast_path [of 0 "Markjar 0" None 7 "(DocumentNode, 0)"]
  by (simp add: Markjar_def children_def)

section \<open>Caret snapshot and restore\<close>




text \<open>
  Claim C6, as the code has it. \<^verbatim>\<open>#getCursorPos\<close> returns \<^verbatim>\<open>null\<close> when the selection is
  \<^verbatim>\<open>null\<close>, and when the start container of its first range is the editor itself, has no
  parent element, or is not a child of the editor and has no \<^verbatim>\<open>div\<close> among its ancestor
  elements.
\<close>

theorem getCursorPos_null:
  assumes "startContainer r = (node, parents)"
    and "ident node = editor s \<or> parents = [] \<or>
         ((\<exists>parent others. parents = parent # others \<and> ident parent \<noteq> editor s) \<and>
          (\<forall>a\<in>set parents. nodeName a \<noteq> ''DIV''))"
  shows "getCursorPos s None = Inr None \<and> getCursorPos s (Some (r # rs)) = Inr None"
proof -
  have "find (\<lambda>a. nodeName a = ''DIV'') parents = None" if "\<forall>a\<in>set parents. nodeName a \<noteq> ''DIV''"
    using that by (simp add: find_None_iff)
  then have "getLineElement (editor s) (node, parents) = None"
    using assms(2) by (cases parents) (auto simp: getLineElement_def)
  then show ?thesis
    using assms(1) by (simp add: getCursorPos_def)
qed

theorem getCursorPos_null_witness:
  "startContainer \<lparr> startContainer = (\<lparr> ident = 0, nodeName = ''DIV'' \<rparr>, [\<lparr> ident = 9, nodeName = ''BODY'' \<rparr>]),
                    lengthTo = (\<lambda>e. 0) \<rparr> =
     (\<lparr> ident = 0, nodeName = ''DIV'' \<rparr>, [\<lparr> ident = 9, nodeName = ''BODY'' \<rparr>]) \<and>
   ident \<lparr> ident = 0, nodeName = ''DIV'' \<rparr> = editor (Markjar 0) \<and>
   getCursorPos (Markjar 0) None = Inr None \<and>
   getCursorPos (Markjar 0)
     (Some [\<lparr> startContainer = (\<lparr> ident = 0, nodeName = ''DIV'' \<rparr>, [\<lparr> ident = 9, nodeName = ''BODY'' \<rparr>]),
              lengthTo = (\<lambda>e. 0) \<rparr>]) = Inr None"
  using getCursorPos_null
    [of "\<lparr> startContainer = (\<lparr> ident = 0, nodeName = ''DIV'' \<rparr>, [\<lparr> ident = 9, nodeName = ''BODY'' \<rparr>]),
           lengthTo = (\<lambda>e. 0) \<rparr>"
        "\<lparr> ident = 0, nodeName = ''DIV'' \<rparr>" "[\<lparr> ident = 9, nodeName = ''BODY'' \<rparr>]" "Markjar 0" "[]"]
  by (simp add: Markjar_def)

text \<open>
  Claim C6 as stated covers every endpoint without an enclosing rendered line. A text node
  in a paragraph of some other \<^verbatim>\<open>div\<close> of the page has no ancestor in the editor, and
  \<^verbatim>\<open>#getCursorPos\<close> returns a position with line \<open>-1\<close> for it.
\<close>

theorem position_outside_every_line:
  "editor (Markjar 0) \<notin> set (map ident [\<lparr> ident = 50, nodeName = ''#text'' \<rparr>, \<lparr> ident = 40, nodeName = ''P'' \<rparr>,
       \<lparr> ident = 30, nodeName = ''DIV'' \<rparr>, \<lparr> ident = 20, nodeName = ''BODY'' \<rparr>]) \<and>
   getCursorPos (Markjar 0)
     (Some [\<lparr> startContainer =
                (\<lparr> ident = 50, nodeName = ''#text'' \<rparr>,
                 [\<lparr> ident = 40, nodeName = ''P'' \<rparr>, \<lparr> ident = 30, nodeName = ''DIV'' \<rparr>,
                  \<lparr> ident = 20, nodeName = ''BODY'' \<rparr>]),
              lengthTo = (\<lambda>e. 4) \<rparr>]) = Inr (Some \<lparr> line = - 1, column = 4 \<rparr>)"
  by (simp add: getCursorPos_def getLineElement_def Markjar_def children_def)


section \<open>The scheduler holds one task\<close>

lemma singleSlot_Markjar: "singleSlot (Markjar e)"
  by (simp add: singleSlot_def Markjar_def)

lemma singleSlot_cong:
  "idleQueue s' = idleQueue s \<Longrightarrow> idleId s' = idleId s \<Longrightarrow> singleSlot s' = singleSlot s"
  by (simp add: singleSlot_def)

lemma requestForUpdate_queue:
  "singleSlot s \<Longrightarrow> idleQueue (requestForUpdate s) = [nextHandle s] \<and> idleId (requestForUpdate s) = Some (nextHandle s)"
  by (auto simp: singleSlot_def requestForUpdate_def requestIdleCallback_def cancelIdleCallback_def
           split: option.splits)

lemma singleSlot_requestForUpdate: "singleSlot s \<Longrightarrow> singleSlot (requestForUpdate s)"
  using requestForUpdate_queue [of s] by (simp add: singleSlot_def)

lemma requestForUpdate_fields:
  "changedLines (requestForUpdate s) = changedLines s" "editor (requestForUpdate s) = editor s"
  "childNodes (requestForUpdate s) = childNodes s"
  by (auto simp: requestForUpdate_def requestIdleCallback_def cancelIdleCallback_def split: option.splits)

lemma singleSlot_changedLines [simp]: "singleSlot (s\<lparr> changedLines := ls \<rparr>) = singleSlot s"
  by (simp add: singleSlot_def)

lemma singleSlot_onBeforeInput: "singleSlot s \<Longrightarrow> singleSlot (stateOf (onBeforeInput s ranges))"
  by (auto simp: onBeforeInput_def singleSlot_requestForUpdate split: list.splits option.splits)

lemma editor_onBeforeInput: "editor (stateOf (onBeforeInput s ranges)) = editor s"
  by (auto simp: onBeforeInput_def requestForUpdate_fields split: list.splits option.splits)

lemma setCursorPos_scheduler:
  "idleQueue (stateOf (setCursorPos s pos b)) = idleQueue s"
  "idleId (stateOf (setCursorPos s pos b)) = idleId s"
  by (auto simp: setCursorPos_def Let_def split: option.splits)

lemma removeTrailing_scheduler:
  "idleQueue (removeTrailing n s) = idleQueue s \<and> idleId (removeTrailing n s) = idleId s"
proof (induction n s rule: removeTrailing.induct)
  case (1 n s)
  show ?case
  proof (cases "n < length (children s)")
    case True
    then have "removeTrailing n s = removeTrailing n (removeLastChild s)"
      by (subst removeTrailing.simps) simp
    with True "1.IH" show ?thesis by (simp add: removeLastChild_def)
  next
    case False
    then have "removeTrailing n s = s"
      by (subst removeTrailing.simps) simp
    then show ?thesis by simp
  qed
qed

lemma updateLineAt_scheduler:
  "idleQueue (updateLineAt hl i t s) = idleQueue s \<and> idleId (updateLineAt hl i t s) = idleId s"
  by (simp add: updateLineAt_def Let_def replaceChild_def appendChild_def)

lemma updateLines_scheduler:
  "idleQueue (updateLines hl i ts s) = idleQueue s \<and> idleId (updateLines hl i ts s) = idleId s"
  by (induction ts arbitrary: i s) (simp_all add: updateLineAt_scheduler)

lemma updateText_scheduler:
  "idleQueue (updateText hl s t) = idleQueue s \<and> idleId (updateText hl s t) = idleId s"
  by (simp add: updateText_def Let_def removeTrailing_scheduler updateLines_scheduler)

lemma setText_scheduler:
  "idleQueue (stateOf (setText hl s sel t)) = idleQueue s \<and> idleId (stateOf (setText hl s sel t)) = idleId s"
  by (cases "getCursorPos s sel")
     (simp_all add: setText_def setCursorPos_scheduler updateText_scheduler)

lemma singleSlot_setText: "singleSlot s \<Longrightarrow> singleSlot (stateOf (setText hl s sel t))"
  using singleSlot_cong [of "stateOf (setText hl s sel t)" s] by (simp add: setText_scheduler)

lemma patchLine_scheduler:
  "idleQueue (patchLine hl md s l) = idleQueue s \<and> idleId (patchLine hl md s l) = idleId s"
  by (simp add: patchLine_def split: option.splits morphed.splits)

lemma patchLines_scheduler:
  "idleQueue (foldl (patchLine hl md) s ls) = idleQueue s \<and> idleId (foldl (patchLine hl md) s ls) = idleId s"
  by (induction ls arbitrary: s) (simp_all add: patchLine_scheduler)

lemma replaceBrs_scheduler:
  "idleQueue (replaceBrs hl s) = idleQueue s \<and> idleId (replaceBrs hl s) = idleId s"
  by (simp add: replaceBrs_def split: prod.splits)

lemma reconcile_scheduler:
  "idleQueue (stateOf (reconcile hl md s sel)) = idleQueue s \<and>
   idleId (stateOf (reconcile hl md s sel)) = idleId s"
  by (cases "getCursorPos s sel")
     (simp_all add: reconcile_def Let_def setCursorPos_scheduler replaceBrs_scheduler patchLines_scheduler)

lemma singleSlot_runIdleCallback:
  "singleSlot s \<Longrightarrow> singleSlot (stateOf (runIdleCallback hl md s h sel))"
  by (auto simp: runIdleCallback_def singleSlot_def reconcile_scheduler)

lemma singleSlot_occur: "singleSlot s \<Longrightarrow> singleSlot (occur hl md s ev)"
  by (cases ev) (simp_all add: singleSlot_onBeforeInput singleSlot_runIdleCallback singleSlot_setText)

lemma singleSlot_run: "singleSlot s \<Longrightarrow> singleSlot (run hl md s evs)"
  unfolding run_def by (induction evs arbitrary: s) (simp_all add: singleSlot_occur)

lemma singleSlot_length: "singleSlot s \<Longrightarrow> length (idleQueue s) \<le> 1"
  by (auto simp: singleSlot_def split: option.splits)

lemma singleSlot_deliver: "singleSlot s \<Longrightarrow> singleSlot (deliver s burst)"
  by (induction burst arbitrary: s) (simp_all add: singleSlot_onBeforeInput)

lemma editor_deliver: "editor (deliver s burst) = editor s"
  by (induction burst arbitrary: s) (simp_all add: editor_onBeforeInput)

lemma set_addChanged: "set (addChanged l ls) = insert l (set ls)"
  by (auto simp: addChanged_def)

lemma distinct_addChanged: "distinct ls \<Longrightarrow> distinct (addChanged l ls)"
  by (simp add: addChanged_def)

lemma changedLines_onBeforeInput:
  "set (changedLines (stateOf (onBeforeInput s ranges))) =
     set (changedLines s) \<union> set (affectedLines (editor s) [ranges])"
  by (auto simp: onBeforeInput_def affectedLines_def requestForUpdate_fields set_addChanged
           split: list.splits option.splits)

lemma affectedLines_Cons:
  "affectedLines ed (ranges # burst) = affectedLines ed [ranges] @ affectedLines ed burst"
  by (simp add: affectedLines_def)

lemma changedLines_deliver:
  "set (changedLines (deliver s burst)) = set (changedLines s) \<union> set (affectedLines (editor s) burst)"
proof (induction burst arbitrary: s)
  case Nil
  show ?case by (simp add: affectedLines_def)
next
  case (Cons ranges burst)
  have "set (changedLines (deliver s (ranges # burst))) =
        set (changedLines (stateOf (onBeforeInput s ranges))) \<union> set (affectedLines (editor s) burst)"
    using Cons.IH [of "stateOf (onBeforeInput s ranges)"] by (simp add: editor_onBeforeInput)
  then show ?case
    by (simp add: changedLines_onBeforeInput affectedLines_Cons [of _ ranges burst] Un_assoc)
qed

lemma onBeforeInput_unarmed:
  "affectedLines (editor s) [ranges] = [] \<Longrightarrow> stateOf (onBeforeInput s ranges) = s"
  by (auto simp: onBeforeInput_def affectedLines_def split: list.splits option.splits)

lemma onBeforeInput_armed:
  "singleSlot s \<Longrightarrow> affectedLines (editor s) [ranges] \<noteq> [] \<Longrightarrow>
   idleQueue (stateOf (onBeforeInput s ranges)) \<noteq> []"
  by (auto simp: onBeforeInput_def affectedLines_def requestForUpdate_queue split: list.splits option.splits)

lemma deliver_keeps_task:
  "singleSlot s \<Longrightarrow> idleQueue s \<noteq> [] \<Longrightarrow> idleQueue (deliver s burst) \<noteq> []"
proof (induction burst arbitrary: s)
  case Nil
  then show ?case by simp
next
  case (Cons ranges burst)
  have "idleQueue (stateOf (onBeforeInput s ranges)) \<noteq> []"
  proof (cases "affectedLines (editor s) [ranges] = []")
    case True
    then show ?thesis using Cons.prems(2) by (simp add: onBeforeInput_unarmed)
  next
    case False
    then show ?thesis using Cons.prems(1) by (simp add: onBeforeInput_armed)
  qed
  then show ?case
    using Cons.IH [of "stateOf (onBeforeInput s ranges)"] Cons.prems(1)
    by (simp add: singleSlot_onBeforeInput)
qed

lemma deliver_armed:
  "singleSlot s \<Longrightarrow> affectedLines (editor s) burst \<noteq> [] \<Longrightarrow> idleQueue (deliver s burst) \<noteq> []"
proof (induction burst arbitrary: s)
  case Nil
  then show ?case by (simp add: affectedLines_def)
next
  case (Cons ranges burst)
  let ?s1 = "stateOf (onBeforeInput s ranges)"
  have slot: "singleSlot ?s1" using Cons.prems(1) by (rule singleSlot_onBeforeInput)
  show ?case
  proof (cases "affectedLines (editor s) [ranges] = []")
    case True
    then have "affectedLines (editor s) burst \<noteq> []"
      using Cons.prems(2) by (simp add: affectedLines_Cons [of _ ranges burst])
    moreover have "?s1 = s" using True by (rule onBeforeInput_unarmed)
    ultimately show ?thesis using Cons.IH [of s] Cons.prems(1) by simp
  next
    case False
    then have "idleQueue ?s1 \<noteq> []" using Cons.prems(1) by (simp add: onBeforeInput_armed)
    then show ?thesis using deliver_keeps_task [OF slot] by simp
  qed
qed

lemma deliver_run: "deliver s burst = run hl md s (map BeforeInput burst)"
  unfolding run_def by (induction burst arbitrary: s) simp_all

lemma singleton_queue:
  "singleSlot s \<Longrightarrow> idleQueue s \<noteq> [] \<Longrightarrow> \<exists>h. idleQueue s = [h]"
  by (auto simp: singleSlot_def)

lemma runIdleCallback_pending:
  "idleQueue s = [h] \<Longrightarrow>
   runIdleCallback hl md s h sel = reconcile hl md (s\<lparr> idleQueue := [] \<rparr>) sel"
  by (simp add: runIdleCallback_def)

text \<open>
  Claim C4, as the code has it. The scheduler of a fresh editor holds a single slot, and
  whatever happens to an editor whose scheduler does, it still does: at most one
  reconciliation task is pending at any time. A burst of edit notifications is
  a run of \<^verbatim>\<open>beforeinput\<close> events; when at least one of them resolves to a line, exactly one
  task is pending after the burst, the dirty set is what it was together with the lines
  the notifications resolved to, running that task is one reconciliation pass over this
  dirty set, and no task is pending afterwards.
\<close>

theorem burst_coalesces_into_one_pass:
  assumes "singleSlot s" and "affectedLines (editor s) burst \<noteq> []"
  shows "singleSlot (Markjar e) \<and>
         singleSlot (run highlight morphdom s events) \<and>
         length (idleQueue (run highlight morphdom s events)) \<le> 1 \<and>
         deliver s burst = run highlight morphdom s (map BeforeInput burst) \<and>
         set (changedLines (deliver s burst)) = set (changedLines s) \<union> set (affectedLines (editor s) burst) \<and>
         (\<exists>h. idleQueue (deliver s burst) = [h] \<and>
              runIdleCallback highlight morphdom (deliver s burst) h sel =
                reconcile highlight morphdom ((deliver s burst)\<lparr> idleQueue := [] \<rparr>) sel \<and>
              idleQueue (stateOf (runIdleCallback highlight morphdom (deliver s burst) h sel)) = [])"
proof -
  have slot: "singleSlot (run highlight morphdom s events)"
    using assms(1) by (rule singleSlot_run)
  then have one: "length (idleQueue (run highlight morphdom s events)) \<le> 1"
    by (rule singleSlot_length)
  have "singleSlot (deliver s burst)"
    using assms(1) by (rule singleSlot_deliver)
  moreover have "idleQueue (deliver s burst) \<noteq> []"
    using assms by (rule deliver_armed)
  ultimately obtain h where h: "idleQueue (deliver s burst) = [h]"
    using singleton_queue by blast
  have pass: "runIdleCallback highlight morphdom (deliver s burst) h sel =
                reconcile highlight morphdom ((deliver s burst)\<lparr> idleQueue := [] \<rparr>) sel"
    using h by (rule runIdleCallback_pending)
  then have after: "idleQueue (stateOf (runIdleCallback highlight morphdom (deliver s burst) h sel)) = []"
    by (simp add: reconcile_scheduler)
  show ?thesis
  proof (intro conjI exI [of _ h])
    show "singleSlot (Markjar e)" by (rule singleSlot_Markjar)
    show "singleSlot (run highlight morphdom s events)" by (rule slot)
    show "length (idleQueue (run highlight morphdom s events)) \<le> 1" by (rule one)
    show "deliver s burst = run highlight morphdom s (map BeforeInput burst)" by (rule deliver_run)
    show "set (changedLines (deliver s burst)) = set (changedLines s) \<union> set (affectedLines (editor s) burst)"
      by (rule changedLines_deliver)
    show "idleQueue (deliver s burst) = [h]" by (rule h)
    show "runIdleCallback highlight morphdom (deliver s burst) h sel =
            reconcile highlight morphdom ((deliver s burst)\<lparr> idleQueue := [] \<rparr>) sel" by (rule pass)
    show "idleQueue (stateOf (runIdleCallback highlight morphdom (deliver s burst) h sel)) = []" by (rule after)
  qed
qed

theorem burst_coalesces_into_one_pass_witness:
  "singleSlot (Markjar 0) \<and>
   affectedLines (editor (Markjar 0)) [editAtFirstLine, editAtEditor, editAtFirstLine] \<noteq> [] \<and>
   set (changedLines (deliver (Markjar 0) [editAtFirstLine, editAtEditor, editAtFirstLine])) = {1} \<and>
   (\<exists>h. idleQueue (deliver (Markjar 0) [editAtFirstLine, editAtEditor, editAtFirstLine]) = [h] \<and>
        idleQueue (stateOf (runIdleCallback plainText replaceWhole
           (deliver (Markjar 0) [editAtFirstLine, editAtEditor, editAtFirstLine]) h None)) = [])"
proof -
  have slot: "singleSlot (Markjar 0)" by (rule singleSlot_Markjar)
  have lines: "affectedLines (editor (Markjar 0)) [editAtFirstLine, editAtEditor, editAtFirstLine] = [1, 1]"
    by (simp add: affectedLines_def editAtFirstLine_def editAtEditor_def getLineElement_def Markjar_def)
  then have armed: "affectedLines (editor (Markjar 0)) [editAtFirstLine, editAtEditor, editAtFirstLine] \<noteq> []"
    by simp
  have dirty: "changedLines (Markjar 0) = []" by (simp add: Markjar_def)
  from burst_coalesces_into_one_pass [OF slot armed, of 0 plainText replaceWhole "[]" None]
  obtain h where union: "set (changedLines (deliver (Markjar 0) [editAtFirstLine, editAtEditor, editAtFirstLine])) =
        set (changedLines (Markjar 0)) \<union>
        set (affectedLines (editor (Markjar 0)) [editAtFirstLine, editAtEditor, editAtFirstLine])"
    and h: "idleQueue (deliver (Markjar 0) [editAtFirstLine, editAtEditor, editAtFirstLine]) = [h]"
           "idleQueue (stateOf (runIdleCallback plainText replaceWhole
              (deliver (Markjar 0) [editAtFirstLine, editAtEditor, editAtFirstLine]) h None)) = []"
    by blast
  from union have "set (changedLines (deliver (Markjar 0) [editAtFirstLine, editAtEditor, editAtFirstLine])) = {1}"
    by (simp only: lines dirty) simp
  with slot armed h show ?thesis by blast
qed

text \<open>
  Claim C4 as stated speaks of every burst of one or more notifications. A single
  notification whose target range starts at the editor element resolves to no line: the
  guard in \<^verbatim>\<open>#onBeforeInput\<close> arms nothing, and no reconciliation pass runs.
\<close>

theorem notification_outside_lines_arms_nothing:
  "length [editAtEditor] = 1 \<and>
   deliver (Markjar 0) [editAtEditor] = Markjar 0 \<and>
   idleQueue (deliver (Markjar 0) [editAtEditor]) = [] \<and>
   (\<forall>h. runIdleCallback plainText replaceWhole (deliver (Markjar 0) [editAtEditor]) h None =
          Returned (Markjar 0))"
proof -
  have "deliver (Markjar 0) [editAtEditor] = Markjar 0"
    by (simp add: onBeforeInput_def editAtEditor_def getLineElement_def Markjar_def)
  moreover have "idleQueue (Markjar 0) = []" by (simp add: Markjar_def)
  ultimately show ?thesis by (simp add: runIdleCallback_def)
qed

section \<open>The reconciliation pass\<close>

lemma find_identity:
  "(find (\<lambda>c. fst c = l) cn = None) = (l \<notin> set (map fst cn))"
  by (induction cn) auto

lemma warnings_patchLine:
  "warnings (patchLine hl md s l) =
     warnings s @ filter (\<lambda>l. l \<notin> set (map fst (childNodes s))) [l]"
proof (cases "find (\<lambda>c. fst c = l) (childNodes s)")
  case None
  then have "l \<notin> set (map fst (childNodes s))" by (simp add: find_identity)
  with None show ?thesis by (simp add: patchLine_def)
next
  case (Some child)
  then have "l \<in> set (map fst (childNodes s))"
    using find_identity [of l "childNodes s"] by simp
  with Some show ?thesis by (simp add: patchLine_def split: morphed.splits)
qed

lemma nextId_patchLine: "nextId s \<le> nextId (patchLine hl md s l)"
  by (simp add: patchLine_def split: option.splits morphed.splits)

lemma nextId_patchLines: "nextId s \<le> nextId (foldl (patchLine hl md) s ls)"
proof (induction ls arbitrary: s)
  case Nil
  show ?case by simp
next
  case (Cons l ls)
  have "nextId s \<le> nextId (patchLine hl md s l)" by (rule nextId_patchLine)
  also have "\<dots> \<le> nextId (foldl (patchLine hl md) (patchLine hl md s l) ls)" by (rule Cons.IH)
  finally show ?case by simp
qed

lemma member_replaceNode:
  "x \<noteq> l \<Longrightarrow> x \<noteq> fst new \<Longrightarrow>
   (x \<in> set (map fst (replaceNode l new cn))) = (x \<in> set (map fst cn))"
  by (induction cn) auto

lemma member_patchLine:
  assumes "x \<noteq> l" and "x < nextId s"
  shows "(x \<in> set (map fst (childNodes (patchLine hl md s l)))) = (x \<in> set (map fst (childNodes s)))"
proof (cases "find (\<lambda>c. fst c = l) (childNodes s)")
  case None
  then show ?thesis by (simp add: patchLine_def)
next
  case (Some child)
  show ?thesis
  proof (cases "morphdomNode md (snd child) (updateLine hl (textContent (snd child)))")
    case (Kept n)
    with Some assms show ?thesis
      by (simp add: patchLine_def member_replaceNode del: set_map)
  next
    case (Replaced n gone)
    with Some assms show ?thesis
      by (simp add: patchLine_def member_replaceNode del: set_map)
  qed
qed

lemma detached_patchLine:
  "x \<noteq> l \<or> l \<notin> set (map fst (childNodes s)) \<Longrightarrow> detached (patchLine hl md s l) x = detached s x"
proof (cases "find (\<lambda>c. fst c = l) (childNodes s)")
  case None
  then show ?thesis by (simp add: patchLine_def)
next
  case (Some child)
  then have "l \<in> set (map fst (childNodes s))"
    using find_identity [of l "childNodes s"] by simp
  moreover assume "x \<noteq> l \<or> l \<notin> set (map fst (childNodes s))"
  ultimately have "x \<noteq> l" by blast
  with Some show ?thesis by (simp add: patchLine_def split: morphed.splits)
qed

text \<open>
  A node that is not a child of the editor when the loop starts, and whose identity was
  handed out before, is no child at any later point of the loop, and the loop leaves its
  subtree alone.
\<close>

lemma outsider_patchLines:
  "x \<notin> set (map fst (childNodes s)) \<Longrightarrow> x < nextId s \<Longrightarrow>
   x \<notin> set (map fst (childNodes (foldl (patchLine hl md) s ls))) \<and>
   detached (foldl (patchLine hl md) s ls) x = detached s x"
proof (induction ls arbitrary: s)
  case Nil
  then show ?case by simp
next
  case (Cons l ls)
  let ?s1 = "patchLine hl md s l"
  have out: "x \<notin> set (map fst (childNodes ?s1))"
  proof (cases "x = l")
    case True
    then have "find (\<lambda>c. fst c = l) (childNodes s) = None"
      using Cons.prems(1) by (simp add: find_identity)
    then show ?thesis using Cons.prems(1) by (simp add: patchLine_def)
  next
    case False
    then show ?thesis using Cons.prems member_patchLine [of x l s hl md] by simp
  qed
  have det: "detached ?s1 x = detached s x"
    using Cons.prems(1) by (intro detached_patchLine) auto
  have "x < nextId ?s1"
    using Cons.prems(2) nextId_patchLine [of s hl md l] by simp
  with out have "x \<notin> set (map fst (childNodes (foldl (patchLine hl md) ?s1 ls))) \<and>
      detached (foldl (patchLine hl md) ?s1 ls) x = detached ?s1 x"
    by (rule Cons.IH)
  with det show ?case by simp
qed

lemma warnings_patchLines:
  "distinct ls \<Longrightarrow> \<forall>l\<in>set ls. l < nextId s \<Longrightarrow>
   warnings (foldl (patchLine hl md) s ls) =
     warnings s @ filter (\<lambda>l. l \<notin> set (map fst (childNodes s))) ls"
proof (induction ls arbitrary: s)
  case Nil
  show ?case by simp
next
  case (Cons l ls)
  let ?s1 = "patchLine hl md s l"
  have fresh: "l \<notin> set ls" and rest: "distinct ls" using Cons.prems(1) by simp_all
  have known: "\<forall>x\<in>set ls. x < nextId ?s1"
    using Cons.prems(2) nextId_patchLine [of s hl md l] by auto
  have same: "filter (\<lambda>x. x \<notin> set (map fst (childNodes ?s1))) ls =
              filter (\<lambda>x. x \<notin> set (map fst (childNodes s))) ls"
  proof (rule filter_cong [OF refl])
    fix x
    assume x: "x \<in> set ls"
    then have "x \<noteq> l" using fresh by auto
    moreover have "x < nextId s" using x Cons.prems(2) by simp
    ultimately show "(x \<notin> set (map fst (childNodes ?s1))) = (x \<notin> set (map fst (childNodes s)))"
      using member_patchLine [of x l s hl md] by simp
  qed
  have "warnings (foldl (patchLine hl md) ?s1 ls) =
        warnings ?s1 @ filter (\<lambda>x. x \<notin> set (map fst (childNodes ?s1))) ls"
    using rest known by (rule Cons.IH)
  then have "warnings (foldl (patchLine hl md) ?s1 ls) =
        (warnings s @ filter (\<lambda>l. l \<notin> set (map fst (childNodes s))) [l]) @
        filter (\<lambda>x. x \<notin> set (map fst (childNodes s))) ls"
    by (simp only: same warnings_patchLine)
  then show ?case by simp
qed

lemma setCursorPos_fields:
  "warnings (stateOf (setCursorPos s pos b)) = warnings s"
  "detached (stateOf (setCursorPos s pos b)) = detached s"
  "changedLines (stateOf (setCursorPos s pos b)) = changedLines s"
  "childNodes (stateOf (setCursorPos s pos b)) = childNodes s"
  by (auto simp: setCursorPos_def Let_def split: option.splits)

lemma replaceBrs_fields:
  "warnings (replaceBrs hl s) = warnings s" "changedLines (replaceBrs hl s) = changedLines s"
  by (simp_all add: replaceBrs_def split: prod.splits)

lemma detached_replaceBrs:
  "l \<notin> set (map fst (childNodes s)) \<Longrightarrow> detached (replaceBrs hl s) l = detached s l"
proof -
  assume "l \<notin> set (map fst (childNodes s))"
  then have "l \<notin> fst ` set (filter (\<lambda>c. isBr (snd c)) (childNodes s))" by auto
  then have "map_of (filter (\<lambda>c. isBr (snd c)) (childNodes s)) l = None"
    by (simp add: map_of_eq_None_iff)
  then show ?thesis
    by (simp add: replaceBrs_def map_add_def split: prod.splits)
qed

text \<open>The dirty set is a set: no event ever puts a node into it twice.\<close>

lemma removeTrailing_changedLines: "changedLines (removeTrailing n s) = changedLines s"
proof (induction n s rule: removeTrailing.induct)
  case (1 n s)
  show ?case
  proof (cases "n < length (children s)")
    case True
    then have "removeTrailing n s = removeTrailing n (removeLastChild s)"
      by (subst removeTrailing.simps) simp
    with True "1.IH" show ?thesis by (simp add: removeLastChild_def)
  next
    case False
    then have "removeTrailing n s = s"
      by (subst removeTrailing.simps) simp
    then show ?thesis by simp
  qed
qed

lemma updateLines_changedLines: "changedLines (updateLines hl i ts s) = changedLines s"
  by (induction ts arbitrary: i s)
     (simp_all add: updateLineAt_def Let_def replaceChild_def appendChild_def)

lemma setText_changedLines: "changedLines (stateOf (setText hl s sel t)) = changedLines s"
  by (cases "getCursorPos s sel")
     (simp_all add: setText_def setCursorPos_fields updateText_def Let_def
        removeTrailing_changedLines updateLines_changedLines)

lemma reconcile_changedLines:
  "changedLines (stateOf (reconcile hl md s sel)) = (if sel = Some [] then changedLines s else [])"
proof (cases "sel = Some []")
  case True
  then show ?thesis by (simp add: reconcile_def getCursorPos_def)
next
  case False
  then obtain pos where "getCursorPos s sel = Inr pos"
    using getCursorPos_no_throw by blast
  with False show ?thesis
    by (simp add: reconcile_def Let_def setCursorPos_fields replaceBrs_fields)
qed

lemma distinct_occur: "distinct (changedLines s) \<Longrightarrow> distinct (changedLines (occur hl md s ev))"
proof (cases ev)
  case (BeforeInput ranges)
  assume "distinct (changedLines s)"
  then show ?thesis
    using BeforeInput
    by (auto simp: onBeforeInput_def requestForUpdate_fields distinct_addChanged
             split: list.splits option.splits)
next
  case (IdleCallback h sel)
  assume "distinct (changedLines s)"
  then show ?thesis
    using IdleCallback by (simp add: runIdleCallback_def reconcile_changedLines)
next
  case (SetText sel t)
  assume "distinct (changedLines s)"
  then show ?thesis
    using SetText by (simp add: setText_changedLines)
qed

lemma distinct_run: "distinct (changedLines s) \<Longrightarrow> distinct (changedLines (run hl md s evs))"
  unfolding run_def by (induction evs arbitrary: s) (simp_all add: distinct_occur)

lemma distinct_reachable: "distinct (changedLines (run hl md (Markjar e) evs))"
  by (rule distinct_run) (simp add: Markjar_def)

text \<open>
  A reconciliation pass whose caret snapshot returns, over a dirty set without duplicates
  whose identities were handed out before: exactly the dirty nodes that are not child
  nodes of the editor get a diagnostic, in the order of the dirty set, none of them
  becomes a child, the subtree kept for each of them is left as it was, and the dirty set
  is empty afterwards, so the pass went on to its end.
\<close>

lemma dirty_outsiders_skipped_after_snapshot:
  assumes "sel \<noteq> Some []" and "distinct (changedLines s)"
    and "\<forall>l\<in>set (changedLines s). l < nextId s"
  shows "warnings (stateOf (reconcile highlight morphdom s sel)) =
           warnings s @ filter (\<lambda>l. l \<notin> set (map fst (childNodes s))) (changedLines s) \<and>
         (\<forall>l\<in>set (changedLines s). l \<notin> set (map fst (childNodes s)) \<longrightarrow>
            detached (stateOf (reconcile highlight morphdom s sel)) l = detached s l) \<and>
         changedLines (stateOf (reconcile highlight morphdom s sel)) = []"
proof -
  let ?s1 = "foldl (patchLine highlight morphdom) s (changedLines s)"
  let ?s2 = "?s1\<lparr> changedLines := [] \<rparr>"
  let ?s3 = "replaceBrs highlight ?s2"
  obtain pos where "getCursorPos s sel = Inr pos"
    using assms(1) getCursorPos_no_throw by blast
  then have res: "reconcile highlight morphdom s sel = setCursorPos ?s3 pos (sel \<noteq> None)"
    by (simp add: reconcile_def Let_def)
  have w: "warnings (stateOf (reconcile highlight morphdom s sel)) =
             warnings s @ filter (\<lambda>l. l \<notin> set (map fst (childNodes s))) (changedLines s)"
    using assms(2,3)
    by (simp add: res setCursorPos_fields replaceBrs_fields warnings_patchLines)
  have d: "detached (stateOf (reconcile highlight morphdom s sel)) l = detached s l"
    if "l \<in> set (changedLines s)" and "l \<notin> set (map fst (childNodes s))" for l
  proof -
    have "l < nextId s" using that(1) assms(3) by simp
    with that(2) have out: "l \<notin> set (map fst (childNodes ?s1))"
      and det: "detached ?s1 l = detached s l"
      using outsider_patchLines [of l s highlight morphdom "changedLines s"] by simp_all
    from out have "l \<notin> set (map fst (childNodes ?s2))" by simp
    then have "detached ?s3 l = detached ?s2 l" by (rule detached_replaceBrs)
    with det show ?thesis by (simp add: res setCursorPos_fields)
  qed
  have c: "changedLines (stateOf (reconcile highlight morphdom s sel)) = []"
    by (simp add: res setCursorPos_fields replaceBrs_fields)
  from w d c show ?thesis by blast
qed

lemma stale_state:
  "changedLines staleDirtyLine = [1, 2] \<and> map fst (childNodes staleDirtyLine) = [2] \<and>
   warnings staleDirtyLine = [] \<and> idleQueue staleDirtyLine = [2] \<and>
   detached staleDirtyLine 1 = Some (Element ''DIV'' [''mj-line''] [])"
  by code_simp

lemma stale_reconciled:
  "warnings (stateOf (reconcile hashLine replaceWhole staleDirtyLine None)) = [1] \<and>
   changedLines (stateOf (reconcile hashLine replaceWhole staleDirtyLine None)) = [] \<and>
   childNodes (stateOf (reconcile hashLine replaceWhole staleDirtyLine None)) =
     [(2, Element ''DIV'' [''mj-line'']
            [Element ''SPAN'' [''hljs-section'', ''mj-hash'', ''mj-h1-hash'', ''mj-block''] [TextNode ''# ''],
             Element ''SPAN'' [''mj-cursor''] []])]"
  by code_simp

lemma reconcile_without_range: "reconcile hl md s (Some []) = Thrown IndexSizeError s"
  by (simp add: reconcile_def getCursorPos_def)

text \<open>
  Claim C7 on a host selection without ranges. The dirty set of \<open>staleDirtyLine\<close> holds
  the node with identity 1, which is no longer a child of the editor, and one task is
  pending. When the host runs that task while the selection has no range,
  \<^verbatim>\<open>getRangeAt(0)\<close> throws in the caret snapshot, before the loop over the dirty set: the
  pass is aborted, the detached node gets no diagnostic, line 2 is not patched and the
  dirty set is not cleared. The same holds of every pass from every state.
\<close>

theorem pass_aborted_on_rangeless_selection:
  "reconcile highlight morphdom s (Some []) = Thrown IndexSizeError s \<and>
   changedLines staleDirtyLine = [1, 2] \<and>
   map fst (childNodes staleDirtyLine) = [2] \<and>
   idleQueue staleDirtyLine = [2] \<and>
   runIdleCallback hashLine replaceWhole staleDirtyLine 2 (Some []) =
     Thrown IndexSizeError (staleDirtyLine\<lparr> idleQueue := [] \<rparr>) \<and>
   warnings (stateOf (runIdleCallback hashLine replaceWhole staleDirtyLine 2 (Some []))) = [] \<and>
   changedLines (stateOf (runIdleCallback hashLine replaceWhole staleDirtyLine 2 (Some []))) = [1, 2] \<and>
   childNodes (stateOf (runIdleCallback hashLine replaceWhole staleDirtyLine 2 (Some []))) =
     childNodes staleDirtyLine"
proof -
  have pass: "runIdleCallback hashLine replaceWhole staleDirtyLine 2 (Some []) =
        Thrown IndexSizeError (staleDirtyLine\<lparr> idleQueue := [] \<rparr>)"
    using stale_state by (simp add: runIdleCallback_def reconcile_without_range)
  then show ?thesis
    using stale_state by (simp add: reconcile_without_range)
qed

end
